theory Spec2Isabelle
  imports Main "HOL-Library.Sublist"
begin

text \<open>
  A shallow embedding of the type generator of \<open>ts-types-from-strapi\<close>
  (\<open>src/generate.ts\<close>): the functions \<open>convertTypeNameToPascalCase\<close>,
  \<open>transformAttributeType\<close> and \<open>parseAttributes\<close>, and \<open>generateTypes\<close> as the function
  from the text it reads to the text it writes. Reading and writing the files, the command
  line and the console are left out. Each regular expression of the source is a function
  that returns the groups of its match, written out by hand from the expression, which
  stands in the comment of the function.
\<close>

section \<open>Strings and the string methods the generator uses\<close>

text \<open>
  The generator reads its input as one JavaScript string and works on it with string
  methods and regular expressions only. A string is modelled as a \<open>string\<close>, one
  \<open>char\<close> per code unit; the model covers ASCII source texts, which is what the
  schema files contain. A code unit above 127 is neither white space nor a word
  character here, and \<open>toUpperCase\<close> leaves it alone.
\<close>

definition isSpace :: "char \<Rightarrow> bool" where
  \<comment> \<open>the class \<open>\s\<close>, and what \<open>trim\<close> strips: TAB, LF, VT, FF, CR, SPACE\<close>
  "isSpace c = (c = CHR 0x09 \<or> c = CHR 0x0A \<or> c = CHR 0x0B \<or> c = CHR 0x0C \<or> c = CHR 0x0D
                \<or> c = CHR 0x20)"

definition isLineTerminator :: "char \<Rightarrow> bool" where
  \<comment> \<open>what \<open>.\<close> refuses and what \<open>$\<close> under the flag \<open>m\<close> stands before: LF, CR\<close>
  "isLineTerminator c = (c = CHR 0x0A \<or> c = CHR 0x0D)"

definition isWord :: "char \<Rightarrow> bool" where
  \<comment> \<open>the class \<open>\w\<close>: \<open>[A-Za-z0-9_]\<close>\<close>
  "isWord c = (let n = (of_char c :: nat) in
     (48 \<le> n \<and> n \<le> 57) \<or> (65 \<le> n \<and> n \<le> 90) \<or> n = 95 \<or> (97 \<le> n \<and> n \<le> 122))"

definition toUpperCase :: "char \<Rightarrow> char" where
  "toUpperCase c = (let n = (of_char c :: nat) in
     if 97 \<le> n \<and> n \<le> 122 then char_of (n - 32) else c)"

fun str_includes :: "string \<Rightarrow> string \<Rightarrow> bool" where
  \<comment> \<open>\<open>s.includes(t)\<close>\<close>
  "str_includes [] t = (t = [])"
| "str_includes (c # cs) t = (prefix t (c # cs) \<or> str_includes cs t)"

definition str_endsWith :: "string \<Rightarrow> string \<Rightarrow> bool" where
  \<comment> \<open>\<open>s.endsWith(t)\<close>\<close>
  "str_endsWith s t = suffix t s"

definition str_trim :: "string \<Rightarrow> string" where
  \<comment> \<open>\<open>s.trim()\<close>\<close>
  "str_trim s = rev (dropWhile isSpace (rev (dropWhile isSpace s)))"

fun str_split :: "string \<Rightarrow> string \<Rightarrow> string list" where
  \<comment> \<open>\<open>s.split(sep)\<close> for a separator that is not empty (here \<open>"\n"\<close> and \<open>"::"\<close>)\<close>
  "str_split sep [] = [[]]"
| "str_split sep (c # cs) =
     (if sep \<noteq> [] \<and> prefix sep (c # cs)
      then [] # str_split sep (drop (length sep) (c # cs))
      else (case str_split sep cs of p # ps \<Rightarrow> (c # p) # ps | [] \<Rightarrow> [[c]]))"

fun regex_split :: "(char \<Rightarrow> bool) \<Rightarrow> string \<Rightarrow> string list" where
  \<comment> \<open>\<open>s.split(/[...]/)\<close> for a character class (here \<open>/[-.]/\<close>)\<close>
  "regex_split P [] = [[]]"
| "regex_split P (c # cs) =
     (if P c then [] # regex_split P cs
      else (case regex_split P cs of p # ps \<Rightarrow> (c # p) # ps | [] \<Rightarrow> [[c]]))"

fun str_join :: "string \<Rightarrow> string list \<Rightarrow> string" where
  \<comment> \<open>\<open>xs.join(sep)\<close>\<close>
  "str_join sep [] = []"
| "str_join sep [x] = x"
| "str_join sep (x # y # ys) = x @ sep @ str_join sep (y # ys)"

definition match_count :: "char \<Rightarrow> string \<Rightarrow> int" where
  \<comment> \<open>\<open>(s.match(/c/g) || []).length\<close> for a single character \<open>c\<close>\<close>
  "match_count c s = int (length (filter (\<lambda>x. x = c) s))"

fun regex_search :: "(string \<Rightarrow> 'a option) \<Rightarrow> string \<Rightarrow> 'a option" where
  \<comment> \<open>an unanchored regular expression: the match at the leftmost start that has one;
      \<open>m\<close> is the expression anchored at the start of its argument\<close>
  "regex_search m [] = m []"
| "regex_search m (c # cs) = (case m (c # cs) of Some r \<Rightarrow> Some r | None \<Rightarrow> regex_search m cs)"

function collapse_ws :: "string \<Rightarrow> string" where
  \<comment> \<open>\<open>s.replace(/\s+/g, " ")\<close>\<close>
  "collapse_ws [] = []"
| "collapse_ws (c # cs) =
     (if isSpace c then CHR '' '' # collapse_ws (dropWhile isSpace cs) else c # collapse_ws cs)"
  by pat_completeness auto
termination
  by (relation "measure length") (auto simp: less_Suc_eq_le length_dropWhile_le)

function commas_to_union :: "string \<Rightarrow> string" where
  \<comment> \<open>\<open>s.replace(/,\s*/g, " | ")\<close>\<close>
  "commas_to_union [] = []"
| "commas_to_union (c # cs) =
     (if c = CHR '','' then '' | '' @ commas_to_union (dropWhile isSpace cs)
      else c # commas_to_union cs)"
  by pat_completeness auto
termination
  by (relation "measure length") (auto simp: less_Suc_eq_le length_dropWhile_le)

definition strip_semicolon :: "string \<Rightarrow> string" where
  \<comment> \<open>\<open>s.replace(/;$/, "")\<close>: without the flag \<open>m\<close>, \<open>$\<close> is the end of the string\<close>
  "strip_semicolon s = (if str_endsWith s '';'' then butlast s else s)"

section \<open>Name conversion\<close>

definition capitalize :: "string \<Rightarrow> string" where
  \<comment> \<open>\<open>word.charAt(0).toUpperCase() + word.slice(1)\<close>\<close>
  "capitalize word = (case word of [] \<Rightarrow> [] | c # cs \<Rightarrow> toUpperCase c # cs)"

definition convertTypeNameToPascalCase :: "string \<Rightarrow> string" where
  "convertTypeNameToPascalCase typeName =
     str_join [] (map (\<lambda>part. str_join [] (map capitalize
        (regex_split (\<lambda>c. c = CHR ''-'' \<or> c = CHR ''.'') part)))
        (str_split ''::'' typeName))"

section \<open>Type transformation\<close>

record Attribute =
  name :: string
  type :: string
  required :: bool

definition enumMatch_at :: "string \<Rightarrow> string option" where
  \<comment> \<open>\<open>/Enumeration<\s*\[([^\]]+)\]\s*>/\<close> anchored at the start: group 1. No quantifier
      has a second way to match: what follows each greedy run is outside its class.\<close>
  "enumMatch_at s =
     (if \<not> prefix ''Enumeration<'' s then None else
      let r = dropWhile isSpace (drop 12 s) in
      if \<not> prefix ''['' r then None else
      let g = takeWhile (\<lambda>c. c \<noteq> CHR '']'') (tl r);
          r' = dropWhile (\<lambda>c. c \<noteq> CHR '']'') (tl r) in
      if g = [] \<or> r' = [] then None else
      if prefix ''>'' (dropWhile isSpace (tl r')) then Some g else None)"

definition enumMatch :: "string \<Rightarrow> string option" where
  \<comment> \<open>\<open>attributeType.match(/Enumeration<\s*\[([^\]]+)\]\s*>/)\<close>, group 1\<close>
  "enumMatch attributeType = regex_search enumMatch_at attributeType"

definition relationMatch_at :: "string \<Rightarrow> (string \<times> string) option" where
  \<comment> \<open>\<open>/Relation<'([^']+)',\s*'([^']+)'/\<close> anchored at the start: groups 1 and 2\<close>
  "relationMatch_at s =
     (if \<not> prefix (''Relation<'' @ [CHR 0x27]) s then None else
      let r = drop 10 s;
          k = takeWhile (\<lambda>c. c \<noteq> CHR 0x27) r;
          r1 = dropWhile (\<lambda>c. c \<noteq> CHR 0x27) r in
      if k = [] \<or> \<not> prefix [CHR 0x27, CHR '',''] r1 then None else
      let r2 = dropWhile isSpace (drop 2 r1) in
      if \<not> prefix [CHR 0x27] r2 then None else
      let t = takeWhile (\<lambda>c. c \<noteq> CHR 0x27) (tl r2);
          r3 = dropWhile (\<lambda>c. c \<noteq> CHR 0x27) (tl r2) in
      if t = [] \<or> r3 = [] then None else Some (k, t))"

definition relationMatch :: "string \<Rightarrow> (string \<times> string) option" where
  \<comment> \<open>\<open>attributeType.match(/Relation<'([^']+)',\s*'([^']+)'/)\<close>, groups 1 and 2\<close>
  "relationMatch attributeType = regex_search relationMatch_at attributeType"

definition transformAttributeType :: "string \<Rightarrow> string" where
  "transformAttributeType attributeType =
     (if str_includes attributeType ''Schema.Attribute.Enumeration'' then
        (case enumMatch attributeType of
           Some g \<Rightarrow> str_trim (commas_to_union (collapse_ws g))
         | None \<Rightarrow> ''string'')
      else if str_includes attributeType ''Schema.Attribute.Relation'' then
        (case relationMatch attributeType of
           Some (relationType, targetType) \<Rightarrow>
             (let typeName = convertTypeNameToPascalCase targetType in
              if relationType = ''oneToMany'' \<or> relationType = ''manyToMany''
              then typeName @ ''[]'' else typeName)
         | None \<Rightarrow> ''any'')
      else if str_includes attributeType ''Schema.Attribute.JSON'' then
        (if str_includes attributeType ''DefaultTo<'[]'>''
            \<or> str_includes attributeType ''DefaultTo<[]>'' then ''any[]''
         else if str_includes attributeType ''DefaultTo<'{}'>''
            \<or> str_includes attributeType ''DefaultTo<{}>'' then ''Record<string, any>''
         else ''Record<string, any>'')
      else if str_includes attributeType ''Schema.Attribute.String'' then ''string''
      else if str_includes attributeType ''Schema.Attribute.Email'' then ''string''
      else if str_includes attributeType ''Schema.Attribute.Password'' then ''string''
      else if str_includes attributeType ''Schema.Attribute.Text'' then ''string''
      else if str_includes attributeType ''Schema.Attribute.Integer'' then ''number''
      else if str_includes attributeType ''Schema.Attribute.BigInteger'' then ''number''
      else if str_includes attributeType ''Schema.Attribute.Decimal'' then ''number''
      else if str_includes attributeType ''Schema.Attribute.Boolean'' then ''boolean''
      else if str_includes attributeType ''Schema.Attribute.DateTime'' then ''string''
      else ''any'')"

section \<open>Attribute parsing\<close>

definition attrMatch :: "string \<Rightarrow> (string \<times> string) option" where
  \<comment> \<open>\<open>line.match(/^(\w+):\s*(.*)/)\<close>, groups 1 and 2; \<open>.\<close> stops at a line terminator\<close>
  "attrMatch line =
     (let n = takeWhile isWord line in
      if n = [] \<or> \<not> prefix '':'' (dropWhile isWord line) then None
      else Some (n, takeWhile (\<lambda>c. \<not> isLineTerminator c)
                      (dropWhile isSpace (tl (dropWhile isWord line)))))"

definition net_count :: "char \<Rightarrow> char \<Rightarrow> string \<Rightarrow> int" where
  \<comment> \<open>opening minus closing brackets of one kind in a text\<close>
  "net_count opn cls s = match_count opn s - match_count cls s"

function continuation :: "string list \<Rightarrow> nat \<Rightarrow> string \<Rightarrow> int \<Rightarrow> int \<Rightarrow> int \<Rightarrow> nat \<times> string" where
  \<comment> \<open>the inner \<open>while\<close> of \<open>parseAttributes\<close>; returns the index and the text it leaves\<close>
  "continuation lines i attrType openAngle openBrace openBracket =
     (if i < length lines \<and>
         (\<not> str_endsWith attrType '';'' \<or> openAngle > 0 \<or> openBrace > 0 \<or> openBracket > 0)
      then (let nextLine = lines ! i in
            continuation lines (i + 1) (attrType @ '' '' @ nextLine)
              (openAngle + net_count CHR ''<'' CHR ''>'' nextLine)
              (openBrace + net_count CHR ''{'' CHR ''}'' nextLine)
              (openBracket + net_count CHR ''['' CHR '']'' nextLine))
      else (i, attrType))"
  by pat_completeness auto
termination
  by (relation "measure (\<lambda>(lines, i, _). length lines - i)") auto

declare continuation.simps [simp del]

definition reconstruct :: "string list \<Rightarrow> nat \<Rightarrow> string \<Rightarrow> nat \<times> string" where
  \<comment> \<open>the counters start from the rest of the attribute's first line, then the loop runs\<close>
  "reconstruct lines i attrType =
     continuation lines i attrType (net_count CHR ''<'' CHR ''>'' attrType)
       (net_count CHR ''{'' CHR ''}'' attrType) (net_count CHR ''['' CHR '']'' attrType)"

definition clean :: "string \<Rightarrow> string" where
  \<comment> \<open>\<open>attrType.replace(/;$/, "").replace(/\s+/g, " ").trim()\<close>\<close>
  "clean attrType = str_trim (collapse_ws (strip_semicolon attrType))"

function parse_loop :: "string list \<Rightarrow> nat \<Rightarrow> Attribute list \<Rightarrow> Attribute list" where
  \<comment> \<open>the outer \<open>while\<close> of \<open>parseAttributes\<close>, from index \<open>i\<close> with the records pushed so far\<close>
  "parse_loop lines i attributes =
     (if i < length lines then
        (case attrMatch (lines ! i) of
           None \<Rightarrow> parse_loop lines (i + 1) attributes
         | Some (attrName, attrType0) \<Rightarrow>
             if attrType0 = [] then parse_loop lines (i + 1) attributes
             else (case reconstruct lines (i + 1) attrType0 of
                (i', attrType1) \<Rightarrow>
                  (let attrType = clean attrType1 in
                   if str_includes attrType ''Schema.Attribute.Private''
                   then parse_loop lines i' attributes
                   else parse_loop lines i' (attributes @
                     [\<lparr>Attribute.name = attrName,
                       type = transformAttributeType attrType,
                       required = str_includes attrType ''Schema.Attribute.Required''\<rparr>]))))
      else attributes)"
  by pat_completeness auto
termination
proof -
  have ge: "j \<le> fst (continuation ls j a x y z)" for ls j a x y z
  proof (induction ls j a x y z rule: continuation.induct)
    case (1 ls j a x y z)
    show ?case
    proof (cases "j < length ls \<and> (\<not> str_endsWith a '';'' \<or> x > 0 \<or> y > 0 \<or> z > 0)")
      case True
      have "continuation ls j a x y z =
          continuation ls (j + 1) (a @ '' '' @ ls ! j)
            (x + net_count CHR ''<'' CHR ''>'' (ls ! j))
            (y + net_count CHR ''{'' CHR ''}'' (ls ! j))
            (z + net_count CHR ''['' CHR '']'' (ls ! j))"
        using True by (subst continuation.simps) (simp add: Let_def)
      moreover have "j + 1 \<le> fst (continuation ls (j + 1) (a @ '' '' @ ls ! j)
            (x + net_count CHR ''<'' CHR ''>'' (ls ! j))
            (y + net_count CHR ''{'' CHR ''}'' (ls ! j))
            (z + net_count CHR ''['' CHR '']'' (ls ! j)))"
        by (rule "1.IH" [OF True refl])
      ultimately show ?thesis by simp
    next
      case False
      then have "continuation ls j a x y z = (j, a)"
        by (subst continuation.simps) auto
      then show ?thesis by simp
    qed
  qed
  have key: "length ls - j' < length ls - j"
    if "(j', t) = reconstruct ls (Suc j) a" and "j < length ls" for ls j j' t a
  proof -
    have "Suc j \<le> fst (reconstruct ls (Suc j) a)"
      unfolding reconstruct_def by (rule ge)
    with that(1) have "Suc j \<le> j'" by (metis fst_conv)
    with that(2) show ?thesis by simp
  qed
  show ?thesis
    by (relation "measure (\<lambda>(lines, i, _). length lines - i)") (auto intro: key)
qed

declare parse_loop.simps [simp del]

definition parseAttributes :: "string \<Rightarrow> Attribute list" where
  "parseAttributes attributesContent =
     parse_loop (filter (\<lambda>line. line \<noteq> [])
        (map str_trim (str_split [CHR 0x0A] attributesContent))) 0 []"

definition lines_of :: "string \<Rightarrow> string list" where
  \<comment> \<open>the trimmed, non-blank lines that \<open>parseAttributes\<close> scans\<close>
  "lines_of attributesContent =
     filter (\<lambda>line. line \<noteq> []) (map str_trim (str_split [CHR 0x0A] attributesContent))"

subsection \<open>The loops with a bound on their iterations\<close>

text \<open>
  The same two loops, each iteration paid for from a budget: running out of budget is the
  result \<open>None\<close>, so that a loop that went on for ever would show as \<open>None\<close> for every
  budget.
\<close>

fun continuation_fuel ::
  "nat \<Rightarrow> string list \<Rightarrow> nat \<Rightarrow> string \<Rightarrow> int \<Rightarrow> int \<Rightarrow> int \<Rightarrow> (nat \<times> string) option" where
  "continuation_fuel 0 lines i attrType openAngle openBrace openBracket = None"
| "continuation_fuel (Suc n) lines i attrType openAngle openBrace openBracket =
     (if i < length lines \<and>
         (\<not> str_endsWith attrType '';'' \<or> openAngle > 0 \<or> openBrace > 0 \<or> openBracket > 0)
      then (let nextLine = lines ! i in
            continuation_fuel n lines (i + 1) (attrType @ '' '' @ nextLine)
              (openAngle + net_count CHR ''<'' CHR ''>'' nextLine)
              (openBrace + net_count CHR ''{'' CHR ''}'' nextLine)
              (openBracket + net_count CHR ''['' CHR '']'' nextLine))
      else Some (i, attrType))"

fun parse_fuel :: "nat \<Rightarrow> string list \<Rightarrow> nat \<Rightarrow> Attribute list \<Rightarrow> Attribute list option" where
  "parse_fuel 0 lines i attributes = None"
| "parse_fuel (Suc n) lines i attributes =
     (if i < length lines then
        (case attrMatch (lines ! i) of
           None \<Rightarrow> parse_fuel n lines (i + 1) attributes
         | Some (attrName, attrType0) \<Rightarrow>
             if attrType0 = [] then parse_fuel n lines (i + 1) attributes
             else (case continuation_fuel (Suc (length lines)) lines (i + 1) attrType0
                     (net_count CHR ''<'' CHR ''>'' attrType0)
                     (net_count CHR ''{'' CHR ''}'' attrType0)
                     (net_count CHR ''['' CHR '']'' attrType0) of
                None \<Rightarrow> None
              | Some (i', attrType1) \<Rightarrow>
                  (let attrType = clean attrType1 in
                   if str_includes attrType ''Schema.Attribute.Private''
                   then parse_fuel n lines i' attributes
                   else parse_fuel n lines i' (attributes @
                     [\<lparr>Attribute.name = attrName,
                       type = transformAttributeType attrType,
                       required = str_includes attrType ''Schema.Attribute.Required''\<rparr>]))))
      else Some attributes)"

definition parseAttributes_fuel :: "string \<Rightarrow> Attribute list option" where
  \<comment> \<open>\<open>parseAttributes\<close> with one more outer iteration than there are lines to scan\<close>
  "parseAttributes_fuel attributesContent =
     parse_fuel (Suc (length (lines_of attributesContent))) (lines_of attributesContent) 0 []"

subsection \<open>What one pass of the outer loop does\<close>

definition next_index :: "string list \<Rightarrow> nat \<Rightarrow> nat" where
  \<comment> \<open>the index at which the outer loop stands after the iteration it starts at \<open>i\<close>\<close>
  "next_index lines i =
     (case attrMatch (lines ! i) of
        None \<Rightarrow> i + 1
      | Some (attrName, attrType0) \<Rightarrow>
          if attrType0 = [] then i + 1 else fst (reconstruct lines (i + 1) attrType0))"

definition decl_at :: "string list \<Rightarrow> nat \<Rightarrow> (string \<times> string) option" where
  \<comment> \<open>the attribute declaration that starts at line \<open>i\<close>, if one does: its name and its
      reconstructed, cleaned type expression\<close>
  "decl_at lines i =
     (case attrMatch (lines ! i) of
        None \<Rightarrow> None
      | Some (attrName, attrType0) \<Rightarrow>
          if attrType0 = [] then None
          else Some (attrName, clean (snd (reconstruct lines (i + 1) attrType0))))"

function declarations :: "string list \<Rightarrow> nat \<Rightarrow> (string \<times> string) list" where
  \<comment> \<open>the attribute declarations the outer loop meets from index \<open>i\<close> on, private or not\<close>
  "declarations lines i =
     (if i < length lines
      then (case decl_at lines i of None \<Rightarrow> [] | Some d \<Rightarrow> [d])
             @ declarations lines (next_index lines i)
      else [])"
  by pat_completeness auto
termination
proof -
  have ge: "j \<le> fst (continuation ls j a x y z)" for ls j a x y z
  proof (induction ls j a x y z rule: continuation.induct)
    case (1 ls j a x y z)
    show ?case
    proof (cases "j < length ls \<and> (\<not> str_endsWith a '';'' \<or> x > 0 \<or> y > 0 \<or> z > 0)")
      case True
      have "continuation ls j a x y z =
          continuation ls (j + 1) (a @ '' '' @ ls ! j)
            (x + net_count CHR ''<'' CHR ''>'' (ls ! j))
            (y + net_count CHR ''{'' CHR ''}'' (ls ! j))
            (z + net_count CHR ''['' CHR '']'' (ls ! j))"
        using True by (subst continuation.simps) (simp add: Let_def)
      moreover have "j + 1 \<le> fst (continuation ls (j + 1) (a @ '' '' @ ls ! j)
            (x + net_count CHR ''<'' CHR ''>'' (ls ! j))
            (y + net_count CHR ''{'' CHR ''}'' (ls ! j))
            (z + net_count CHR ''['' CHR '']'' (ls ! j)))"
        by (rule "1.IH" [OF True refl])
      ultimately show ?thesis by simp
    next
      case False
      then have "continuation ls j a x y z = (j, a)"
        by (subst continuation.simps) auto
      then show ?thesis by simp
    qed
  qed
  have "i < next_index ls i" for ls i
    using ge [of "i + 1" ls]
    by (auto simp: next_index_def reconstruct_def less_eq_Suc_le split: option.splits)
  then show ?thesis
    by (relation "measure (\<lambda>(lines, i). length lines - i)") (auto intro: diff_less_mono2)
qed

declare declarations.simps [simp del]

definition is_private :: "string \<times> string \<Rightarrow> bool" where
  "is_private d = str_includes (snd d) ''Schema.Attribute.Private''"

definition attr_of :: "string \<times> string \<Rightarrow> Attribute" where
  \<comment> \<open>the record the loop pushes for a declaration that is not private\<close>
  "attr_of d = \<lparr>Attribute.name = fst d, type = transformAttributeType (snd d),
     required = str_includes (snd d) ''Schema.Attribute.Required''\<rparr>"

subsection \<open>Where the reconstruction stops\<close>

definition joined :: "string \<Rightarrow> string list \<Rightarrow> string" where
  \<comment> \<open>a text with further lines appended, a single space before each\<close>
  "joined attrType ls = attrType @ concat (map (\<lambda>l. '' '' @ l) ls)"

definition stop_here :: "string \<Rightarrow> bool" where
  \<comment> \<open>the accumulated text at which the inner loop stops: it ends with a semicolon and no
      kind of bracket has more opens than closes\<close>
  "stop_here a = (str_endsWith a '';'' \<and> net_count CHR ''<'' CHR ''>'' a \<le> 0
     \<and> net_count CHR ''{'' CHR ''}'' a \<le> 0 \<and> net_count CHR ''['' CHR '']'' a \<le> 0)"

definition stop_exact :: "string \<Rightarrow> bool" where
  \<comment> \<open>the stopping condition in the specification's words: it ends with a semicolon and
      the net count of each kind of bracket is exactly zero\<close>
  "stop_exact a = (str_endsWith a '';'' \<and> net_count CHR ''<'' CHR ''>'' a = 0
     \<and> net_count CHR ''{'' CHR ''}'' a = 0 \<and> net_count CHR ''['' CHR '']'' a = 0)"

section \<open>Interface extraction and rendering\<close>

record ParsedInterface =
  name :: string
  attributes :: "Attribute list"

fun lazy_until :: "string \<Rightarrow> string \<Rightarrow> (string \<times> string) option" where
  \<comment> \<open>\<open>([\s\S]*?)\<close> followed by a literal: the shortest text before the literal, and the
      text after it\<close>
  "lazy_until lit [] = (if lit = [] then Some ([], []) else None)"
| "lazy_until lit (c # cs) =
     (if prefix lit (c # cs) then Some ([], drop (length lit) (c # cs))
      else map_option (\<lambda>(g, r). (c # g, r)) (lazy_until lit cs))"

definition interfaceRegex_at :: "string \<Rightarrow> (string \<times> string \<times> string) option" where
  \<comment> \<open>\<open>/export interface (\w+)[^{]*\{([\s\S]*?)\n\}/\<close> anchored at the start: group 1,
      group 2 and the text after the match. \<open>[^{]*\<close> can only end at the first brace
      after the name, so giving characters back never finds another match.\<close>
  "interfaceRegex_at s =
     (if \<not> prefix ''export interface '' s then None else
      let n = takeWhile isWord (drop 17 s) in
      if n = [] then None else
      (case dropWhile (\<lambda>c. c \<noteq> CHR ''{'') (dropWhile isWord (drop 17 s)) of
         [] \<Rightarrow> None
       | b # body \<Rightarrow>
           (case lazy_until [CHR 0x0A, CHR ''}''] body of
              None \<Rightarrow> None
            | Some (g, rest) \<Rightarrow> Some (n, g, rest))))"

definition interfaceRegex_exec :: "string \<Rightarrow> (string \<times> string \<times> string) option" where
  \<comment> \<open>\<open>interfaceRegex.exec(content)\<close> under the flag \<open>g\<close>, on the text from \<open>lastIndex\<close>
      on: groups 1 and 2, and the text from the new \<open>lastIndex\<close> on\<close>
  "interfaceRegex_exec s = regex_search interfaceRegex_at s"

definition line_end :: "string \<Rightarrow> bool" where
  \<comment> \<open>\<open>\s*$\<close> under the flag \<open>m\<close>: the white space that follows runs to the end of the
      text, or holds a line terminator for \<open>$\<close> to stand before\<close>
  "line_end s = (dropWhile isSpace s = [] \<or> list_ex isLineTerminator (takeWhile isSpace s))"

definition block_close :: "string \<Rightarrow> bool" where
  \<comment> \<open>\<open>\s*\};?\s*$\<close> under the flag \<open>m\<close>, anchored at the start\<close>
  "block_close s =
     (case dropWhile isSpace s of
        [] \<Rightarrow> False
      | c # r \<Rightarrow> c = CHR ''}'' \<and> line_end (if prefix '';'' r then tl r else r))"

fun lazy_block :: "string \<Rightarrow> string option" where
  \<comment> \<open>\<open>([\s\S]*?)\s*\};?\s*$\<close>: the shortest group 1 after which the block closes\<close>
  "lazy_block [] = None"
| "lazy_block (c # cs) =
     (if block_close (c # cs) then Some [] else map_option (\<lambda>g. c # g) (lazy_block cs))"

definition attributesMatch_at :: "string \<Rightarrow> string option" where
  \<comment> \<open>\<open>/attributes:\s*\{([\s\S]*?)\s*\};?\s*$/m\<close> anchored at the start: group 1\<close>
  "attributesMatch_at s =
     (if \<not> prefix ''attributes:'' s then None else
      (case dropWhile isSpace (drop 11 s) of
         [] \<Rightarrow> None
       | c # body \<Rightarrow> if c = CHR ''{'' then lazy_block body else None))"

definition attributesMatch :: "string \<Rightarrow> string option" where
  \<comment> \<open>\<open>interfaceContent.match(/attributes:\s*\{([\s\S]*?)\s*\};?\s*$/m)\<close>, group 1\<close>
  "attributesMatch interfaceContent = regex_search attributesMatch_at interfaceContent"

function exec_loop :: "string \<Rightarrow> ParsedInterface list \<Rightarrow> ParsedInterface list" where
  \<comment> \<open>the \<open>while\<close> of \<open>generateTypes\<close>, on the text from \<open>lastIndex\<close> on\<close>
  "exec_loop s interfaces =
     (case interfaceRegex_exec s of
        None \<Rightarrow> interfaces
      | Some (interfaceName, interfaceContent, rest) \<Rightarrow>
          if interfaceName \<noteq> [] \<and> interfaceContent \<noteq> [] then
            (case attributesMatch interfaceContent of
               None \<Rightarrow> exec_loop rest interfaces
             | Some attributesContent \<Rightarrow>
                 if attributesContent = [] then exec_loop rest interfaces
                 else (let attrs = parseAttributes attributesContent in
                   if length attrs > 0
                   then exec_loop rest (interfaces @
                     [\<lparr>ParsedInterface.name = interfaceName, attributes = attrs\<rparr>])
                   else exec_loop rest interfaces))
          else exec_loop rest interfaces)"
  by pat_completeness auto
termination
proof -
  have lazy: "length r < length s" if "lazy_until [CHR 0x0A, CHR ''}''] s = Some (g, r)"
    for s g r
    using that by (induction s arbitrary: g) (auto split: if_splits)
  have at: "length r < length s" if "interfaceRegex_at s = Some (n, g, r)" for s n g r
  proof -
    from that obtain b body where
      b: "dropWhile (\<lambda>c. c \<noteq> CHR ''{'') (dropWhile isWord (drop 17 s)) = b # body"
      and l: "lazy_until [CHR 0x0A, CHR ''}''] body = Some (g, r)"
      by (auto simp: interfaceRegex_at_def Let_def split: if_splits list.splits option.splits)
    have "length (b # body) \<le> length (dropWhile isWord (drop 17 s))"
      unfolding b [symmetric] by (rule length_dropWhile_le)
    also have "\<dots> \<le> length (drop 17 s)" by (rule length_dropWhile_le)
    finally have "length body < length s" by simp
    with lazy [OF l] show ?thesis by simp
  qed
  have ex: "length r < length s" if "interfaceRegex_exec s = Some (n, g, r)" for s n g r
    using that unfolding interfaceRegex_exec_def
  proof (induction s)
    case Nil
    then show ?case by (simp add: interfaceRegex_at_def)
  next
    case (Cons c cs)
    then show ?case
      by (cases "interfaceRegex_at (c # cs)") (auto dest: at)
  qed
  show ?thesis
    by (relation "measure (\<lambda>(s, _). length s)") (auto dest: ex)
qed

declare exec_loop.simps [simp del]

definition render_attribute :: "Attribute \<Rightarrow> string" where
  "render_attribute attr =
     ''  '' @ Attribute.name attr @ (if required attr then [] else ''?'') @ '': ''
       @ type attr @ '';''"

definition render_interface :: "ParsedInterface \<Rightarrow> string" where
  "render_interface iface =
     ''export interface '' @ ParsedInterface.name iface @ '' {'' @ [CHR 0x0A]
       @ str_join [CHR 0x0A] (map render_attribute (attributes iface)) @ [CHR 0x0A] @ ''}''"

definition generateTypes :: "string \<Rightarrow> string" where
  \<comment> \<open>from the text read from the input file to the text written to the output file\<close>
  "generateTypes backendContent =
     str_join [CHR 0x0A, CHR 0x0A] (map render_interface (exec_loop backendContent []))"

subsection \<open>The blocks the extractor finds\<close>




section \<open>Texts of the scenarios\<close>

definition nl :: string where
  "nl = [CHR 0x0A]"

definition dq :: string where
  "dq = [CHR 0x22]"



definition sq :: string where
  "sq = [CHR 0x27]"


definition relation_pattern :: "string \<Rightarrow> string \<Rightarrow> string \<Rightarrow> bool" where
  \<comment> \<open>the relation pattern in words: a text that starts with \<open>Relation<\<close>, a
      single-quoted kind, a comma, white space allowed, and a single-quoted target\<close>
  "relation_pattern t k tgt =
     (\<exists>w q. t = ''Relation<'' @ sq @ k @ sq @ '','' @ w @ sq @ tgt @ sq @ q \<and>
        (\<forall>c \<in> set w. isSpace c) \<and> k \<noteq> [] \<and> CHR 0x27 \<notin> set k \<and>
        tgt \<noteq> [] \<and> CHR 0x27 \<notin> set tgt)"

definition many_tags :: string where
  "many_tags = ''Schema.Attribute.Relation<'' @ sq @ ''manyToMany'' @ sq @ '','' @ '' '' @ sq
      @ ''api::tag.tag'' @ sq @ ''>''"

definition one_author :: string where
  "one_author = ''Schema.Attribute.Relation<'' @ sq @ ''manyToOne'' @ sq @ '','' @ '' '' @ sq
      @ ''api::author.author'' @ sq @ ''>''"

definition quoted_author :: string where
  "quoted_author = ''Schema.Attribute.Relation<'' @ dq @ ''oneToOne'' @ dq @ '', '' @ dq
      @ ''api::author.author'' @ dq @ ''>''"





definition private_block :: string where
  \<comment> \<open>an attributes block with two private attributes among four\<close>
  "private_block =
     nl @ ''    title: Schema.Attribute.String & Schema.Attribute.Required;'' @ nl @
     ''    createdBy: Schema.Attribute.Relation<'oneToOne', 'admin::user'> &'' @ nl @
     ''      Schema.Attribute.Private;'' @ nl @
     ''    secret: Schema.Attribute.Password &'' @ nl @
     ''      Schema.Attribute.Required &'' @ nl @
     ''      Schema.Attribute.Private;'' @ nl @
     ''    views: Schema.Attribute.Integer;''"


definition localized_source :: string where
  \<comment> \<open>a localized attribute, as Strapi writes it when internationalization is on, followed
      by a second attribute\<close>
  "localized_source =
     ''export interface ApiArticleArticle extends Struct.CollectionTypeSchema {'' @ nl @
     ''  collectionName: 'articles';'' @ nl @
     ''  attributes: {'' @ nl @
     ''    title: Schema.Attribute.String &'' @ nl @
     ''      Schema.Attribute.Required &'' @ nl @
     ''      Schema.Attribute.SetPluginOptions<{'' @ nl @
     ''        i18n: {'' @ nl @
     ''          localized: true;'' @ nl @
     ''        };'' @ nl @
     ''      }>;'' @ nl @
     ''    slug: Schema.Attribute.String & Schema.Attribute.Required;'' @ nl @
     ''  };'' @ nl @
     ''}'' @ nl"

section \<open>Properties of the string methods\<close>

lemma str_join_Nil: "str_join [] xs = concat xs"
  by (induction "[]::string" xs rule: str_join.induct) auto

lemma str_split_none: "sep \<noteq> [] \<Longrightarrow> \<not> str_includes s sep \<Longrightarrow> str_split sep s = [s]"
  by (induction s) auto

lemma regex_split_none: "\<forall>c \<in> set s. \<not> P c \<Longrightarrow> regex_split P s = [s]"
  by (induction s) auto

lemma regex_split_free: "w \<in> set (regex_split P s) \<Longrightarrow> c \<in> set w \<Longrightarrow> \<not> P c"
  by (induction s arbitrary: w) (fastforce split: if_splits list.splits)+

lemma regex_search_hit: "m s = Some r \<Longrightarrow> regex_search m s = Some r"
  by (cases s) simp_all

lemma regex_search_skip:
  "(\<And>s2. suffix s2 p \<Longrightarrow> s2 \<noteq> [] \<Longrightarrow> m (s2 @ r) = None) \<Longrightarrow>
   regex_search m (p @ r) = regex_search m r"
proof (induction p)
  case Nil
  then show ?case by simp
next
  case (Cons c p)
  have "m ((c # p) @ r) = None" by (rule Cons.prems) simp_all
  moreover have "regex_search m (p @ r) = regex_search m r"
    by (rule Cons.IH) (simp add: Cons.prems suffix_Cons)
  ultimately show ?case by simp
qed

lemma regex_search_None_iff: "regex_search m s = None \<longleftrightarrow> (\<forall>t. suffix t s \<longrightarrow> m t = None)"
proof (induction s)
  case Nil
  then show ?case by simp
next
  case (Cons c cs)
  have "(\<forall>t. suffix t (c # cs) \<longrightarrow> m t = None) \<longleftrightarrow>
      m (c # cs) = None \<and> (\<forall>t. suffix t cs \<longrightarrow> m t = None)"
    by (auto simp: suffix_Cons)
  with Cons show ?case by (cases "m (c # cs)") simp_all
qed

lemma regex_search_SomeD:
  "regex_search m s = Some r \<Longrightarrow>
     \<exists>a b. s = a @ b \<and> m b = Some r \<and> (\<forall>a2. suffix a2 a \<and> a2 \<noteq> [] \<longrightarrow> m (a2 @ b) = None)"
proof (induction s)
  case Nil
  then have "[] = [] @ [] \<and> m [] = Some r \<and> (\<forall>a2. suffix a2 [] \<and> a2 \<noteq> [] \<longrightarrow> m (a2 @ []) = None)"
    by simp
  then show ?case by (intro exI [of _ "[]"])
next
  case (Cons c cs)
  show ?case
  proof (cases "m (c # cs)")
    case (Some r')
    with Cons.prems have "c # cs = [] @ (c # cs) \<and> m (c # cs) = Some r \<and>
        (\<forall>a2. suffix a2 [] \<and> a2 \<noteq> [] \<longrightarrow> m (a2 @ (c # cs)) = None)"
      by simp
    then show ?thesis by (intro exI [of _ "[]"] exI [of _ "c # cs"])
  next
    case None
    with Cons.prems have "regex_search m cs = Some r" by simp
    from Cons.IH [OF this] obtain a b where ab: "cs = a @ b" "m b = Some r"
      "\<forall>a2. suffix a2 a \<and> a2 \<noteq> [] \<longrightarrow> m (a2 @ b) = None" by blast
    have "\<forall>a2. suffix a2 (c # a) \<and> a2 \<noteq> [] \<longrightarrow> m (a2 @ b) = None"
    proof (intro allI impI)
      fix a2 assume "suffix a2 (c # a) \<and> a2 \<noteq> []"
      then consider "a2 = c # a" | "suffix a2 a" "a2 \<noteq> []" by (auto simp: suffix_Cons)
      then show "m (a2 @ b) = None"
      proof cases
        case 1
        with None ab(1) show ?thesis by simp
      next
        case 2
        with ab(3) show ?thesis by simp
      qed
    qed
    moreover have "c # cs = (c # a) @ b" using ab(1) by simp
    ultimately have "c # cs = (c # a) @ b \<and> m b = Some r \<and>
        (\<forall>a2. suffix a2 (c # a) \<and> a2 \<noteq> [] \<longrightarrow> m (a2 @ b) = None)"
      using ab(2) by simp
    then show ?thesis by (intro exI [of _ "c # a"] exI [of _ b])
  qed
qed

lemma regex_search_Some_iff:
  "regex_search m s = Some r \<longleftrightarrow>
     (\<exists>a b. s = a @ b \<and> m b = Some r \<and> (\<forall>a2. suffix a2 a \<and> a2 \<noteq> [] \<longrightarrow> m (a2 @ b) = None))"
proof
  assume "regex_search m s = Some r"
  then show "\<exists>a b. s = a @ b \<and> m b = Some r \<and>
      (\<forall>a2. suffix a2 a \<and> a2 \<noteq> [] \<longrightarrow> m (a2 @ b) = None)"
    by (rule regex_search_SomeD)
next
  assume "\<exists>a b. s = a @ b \<and> m b = Some r \<and>
      (\<forall>a2. suffix a2 a \<and> a2 \<noteq> [] \<longrightarrow> m (a2 @ b) = None)"
  then obtain a b where ab: "s = a @ b" "m b = Some r"
    "\<forall>a2. suffix a2 a \<and> a2 \<noteq> [] \<longrightarrow> m (a2 @ b) = None" by blast
  have "regex_search m (a @ b) = regex_search m b"
    by (rule regex_search_skip) (use ab(3) in simp)
  with ab(1,2) show "regex_search m s = Some r"
    by (simp add: regex_search_hit)
qed

lemma str_includes_iff: "str_includes s t \<longleftrightarrow> (\<exists>a b. s = a @ t @ b)"
proof (induction s)
  case Nil
  then show ?case by simp
next
  case (Cons c s)
  show ?case
  proof
    assume "str_includes (c # s) t"
    then consider "prefix t (c # s)" | "str_includes s t" by auto
    then show "\<exists>a b. c # s = a @ t @ b"
    proof cases
      case 1
      then obtain b where "c # s = t @ b" by (auto simp: prefix_def)
      then have "c # s = [] @ t @ b" by simp
      then show ?thesis by blast
    next
      case 2
      with Cons obtain a b where "s = a @ t @ b" by blast
      then have "c # s = (c # a) @ t @ b" by simp
      then show ?thesis by blast
    qed
  next
    assume "\<exists>a b. c # s = a @ t @ b"
    then obtain a b where ab: "c # s = a @ t @ b" by blast
    show "str_includes (c # s) t"
    proof (cases a)
      case Nil
      with ab have "prefix t (c # s)" by (simp add: prefix_def)
      then show ?thesis by simp
    next
      case (Cons d a')
      with ab have "s = a' @ t @ b" by simp
      with Cons.IH have "str_includes s t" by blast
      then show ?thesis by simp
    qed
  qed
qed

lemma prefix_no_straddle:
  assumes "prefix X (a @ z)" "z \<noteq> []" "hd z \<notin> set X"
  shows "prefix X a"
proof -
  from assms(1) consider "prefix X a" | us where "X = a @ us" "prefix us z"
    by (auto simp: prefix_append)
  then show ?thesis
  proof cases
    case 1
    then show ?thesis .
  next
    case 2
    show ?thesis
    proof (cases us)
      case Nil
      with 2 show ?thesis by simp
    next
      case (Cons u us')
      with 2(2) assms(2) have "hd z = u" by (cases z) auto
      with 2(1) Cons assms(3) show ?thesis by simp
    qed
  qed
qed

lemma suffix_prefix_includes: "suffix s2 p \<Longrightarrow> prefix X s2 \<Longrightarrow> str_includes p X"
  by (auto simp: str_includes_iff suffix_def prefix_def)





lemma regex_search_marker:
  assumes at: "\<And>s g. m s = Some g \<Longrightarrow> prefix X s"
    and X: "X \<noteq> []" "hd X \<notin> set pre"
    and pre: "pre \<noteq> []" "hd pre \<notin> set X"
    and p: "\<not> str_includes p X"
    and hit: "m (X @ rest) = Some r"
  shows "regex_search m (p @ pre @ X @ rest) = Some r"
proof -
  have "m (s2 @ pre @ X @ rest) = None" if "suffix s2 p" "s2 \<noteq> []" for s2
  proof (rule ccontr)
    assume "m (s2 @ pre @ X @ rest) \<noteq> None"
    then have "prefix X (s2 @ pre @ X @ rest)" using at by auto
    moreover have "hd (pre @ X @ rest) \<notin> set X" using pre by simp
    ultimately have "prefix X s2"
      using pre(1) by (intro prefix_no_straddle [of X s2 "pre @ X @ rest"]) auto
    with that(1) p show False by (auto dest: suffix_prefix_includes)
  qed
  then have 1: "regex_search m (p @ pre @ X @ rest) = regex_search m (pre @ X @ rest)"
    by (rule regex_search_skip)
  have "m (s2 @ X @ rest) = None" if "suffix s2 pre" "s2 \<noteq> []" for s2
  proof (rule ccontr)
    assume "m (s2 @ X @ rest) \<noteq> None"
    then have "prefix X (s2 @ X @ rest)" using at by auto
    with X(1) that(2) have "hd X = hd s2"
      by (cases X; cases s2) auto
    moreover have "hd s2 \<in> set pre"
      using that by (metis hd_in_set set_mono_suffix subsetD)
    ultimately show False using X(2) by simp
  qed
  then have 2: "regex_search m (pre @ X @ rest) = regex_search m (X @ rest)"
    by (rule regex_search_skip)
  from hit have "regex_search m (X @ rest) = Some r" by (rule regex_search_hit)
  with 1 2 show ?thesis by simp
qed











section \<open>The end-to-end scenario\<close>


section \<open>Name conversion\<close>

lemma of_char_toUpperCase:
  "(of_char (toUpperCase c) :: nat) =
     (if 97 \<le> (of_char c :: nat) \<and> (of_char c :: nat) \<le> 122 then of_char c - 32
      else of_char c)"
  by (auto simp: toUpperCase_def Let_def)

lemma toUpperCase_idem: "toUpperCase (toUpperCase c) = toUpperCase c"
  by (auto simp: toUpperCase_def Let_def)

lemma toUpperCase_not_sep:
  assumes "c \<noteq> CHR ''-''" "c \<noteq> CHR ''.''"
  shows "toUpperCase c \<noteq> CHR ''-'' \<and> toUpperCase c \<noteq> CHR ''.''"
proof (cases "97 \<le> (of_char c :: nat) \<and> (of_char c :: nat) \<le> 122")
  case True
  then have "(of_char (toUpperCase c) :: nat) \<ge> 65"
    by (simp only: of_char_toUpperCase if_True simp_thms) linarith
  moreover have "(of_char CHR ''-'' :: nat) = 45" "(of_char CHR ''.'' :: nat) = 46"
    by simp_all
  ultimately have "(of_char (toUpperCase c) :: nat) \<noteq> of_char CHR ''-''"
    "(of_char (toUpperCase c) :: nat) \<noteq> of_char CHR ''.''" by linarith+
  then show ?thesis by auto
next
  case False
  then have "toUpperCase c = c" by (auto simp: toUpperCase_def Let_def)
  with assms show ?thesis by simp
qed

lemma capitalize_idem: "capitalize (capitalize w) = capitalize w"
  by (cases w) (simp_all add: capitalize_def toUpperCase_idem)

lemma capitalize_concat:
  "\<forall>w \<in> set ws. capitalize w = w \<Longrightarrow> capitalize (concat ws) = concat ws"
proof (induction ws)
  case Nil
  then show ?case by (simp add: capitalize_def)
next
  case (Cons w ws)
  then show ?case by (cases w) (auto simp: capitalize_def)
qed

lemma convert_fixed:
  assumes "\<not> str_includes (convertTypeNameToPascalCase x) ''::''"
  shows "convertTypeNameToPascalCase (convertTypeNameToPascalCase x)
    = convertTypeNameToPascalCase x"
proof -
  let ?P = "\<lambda>c. c = CHR ''-'' \<or> c = CHR ''.''"
  let ?f = "\<lambda>part. concat (map capitalize (regex_split ?P part))"
  let ?y = "convertTypeNameToPascalCase x"
  have y: "?y = concat (map ?f (str_split ''::'' x))"
    by (simp add: convertTypeNameToPascalCase_def str_join_Nil)
  have cap_word: "\<not> ?P c"
    if "w \<in> set (regex_split ?P p)" "c \<in> set (capitalize w)" for w p c
  proof (cases w)
    case Nil
    with that show ?thesis by (simp add: capitalize_def)
  next
    case (Cons d ds)
    have ne: "\<not> ?P e" if "e \<in> set w" for e
      using regex_split_free [OF \<open>w \<in> set (regex_split ?P p)\<close> that] .
    from ne [of d] Cons have "\<not> ?P (toUpperCase d)"
      using toUpperCase_not_sep [of d] by simp
    moreover from ne Cons have "\<not> ?P e" if "e \<in> set ds" for e using that by simp
    moreover from that(2) Cons have "c = toUpperCase d \<or> c \<in> set ds"
      by (simp add: capitalize_def)
    ultimately show ?thesis by auto
  qed
  have free: "\<forall>c \<in> set ?y. \<not> ?P c"
  proof
    fix c assume "c \<in> set ?y"
    then obtain p w where "w \<in> set (regex_split ?P p)" "c \<in> set (capitalize w)"
      unfolding y by auto
    then show "\<not> ?P c" by (rule cap_word)
  qed
  have "capitalize (?f p) = ?f p" for p
    by (rule capitalize_concat) (auto simp: capitalize_idem)
  then have cap: "capitalize ?y = ?y"
    unfolding y by (intro capitalize_concat) auto
  have "str_split ''::'' ?y = [?y]"
    using assms by (intro str_split_none) auto
  moreover have "regex_split ?P ?y = [?y]"
    using free by (rule regex_split_none)
  ultimately have "convertTypeNameToPascalCase ?y = capitalize ?y"
    by (subst convertTypeNameToPascalCase_def) (simp add: str_join_Nil)
  with cap show ?thesis by simp
qed

lemma length_concat_regex_split: "length (concat (regex_split P s)) \<le> length s"
  by (induction s) (auto split: list.splits)

lemma length_concat_str_split: "length (concat (str_split sep s)) \<le> length s"
proof (induction sep s rule: str_split.induct)
  case (1 sep)
  then show ?case by simp
next
  case (2 sep c cs)
  show ?case
  proof (cases "sep \<noteq> [] \<and> prefix sep (c # cs)")
    case True
    with 2(1) have "length (concat (str_split sep (drop (length sep) (c # cs))))
        \<le> length (drop (length sep) (c # cs))" by simp
    with True show ?thesis by simp
  next
    case False
    with 2(2) have "length (concat (str_split sep cs)) \<le> length cs" by simp
    with False show ?thesis by (auto split: list.splits)
  qed
qed

lemma length_concat_str_split_includes:
  "sep \<noteq> [] \<Longrightarrow> str_includes s sep \<Longrightarrow> length (concat (str_split sep s)) + length sep \<le> length s"
proof (induction s)
  case Nil
  then show ?case by simp
next
  case (Cons c cs)
  show ?case
  proof (cases "prefix sep (c # cs)")
    case True
    have "length (concat (str_split sep (drop (length sep) (c # cs))))
        \<le> length (drop (length sep) (c # cs))" by (rule length_concat_str_split)
    moreover have "length sep \<le> length (c # cs)" using True by (rule prefix_length_le)
    ultimately show ?thesis using True Cons.prems(1) by simp
  next
    case False
    with Cons.prems have "str_includes cs sep" by simp
    with Cons.IH Cons.prems(1) have "length (concat (str_split sep cs)) + length sep \<le> length cs"
      by simp
    with False show ?thesis by (auto split: list.splits)
  qed
qed

lemma length_capitalize: "length (capitalize w) = length w"
  by (cases w) (simp_all add: capitalize_def)

lemma length_concat_map_le:
  "(\<And>p. length (f p) \<le> length p) \<Longrightarrow> length (concat (map f ps)) \<le> length (concat ps)"
  by (induction ps) (auto intro: add_mono)

lemma convert_shrinks:
  assumes "str_includes y ''::''"
  shows "length (convertTypeNameToPascalCase y) < length y"
proof -
  let ?P = "\<lambda>c. c = CHR ''-'' \<or> c = CHR ''.''"
  let ?f = "\<lambda>part. concat (map capitalize (regex_split ?P part))"
  have "length (concat (map capitalize ws)) = length (concat ws)" for ws
    by (induction ws) (simp_all add: length_capitalize)
  then have f: "length (?f p) \<le> length p" for p
    by (simp add: length_concat_regex_split)
  have "length (convertTypeNameToPascalCase y) = length (concat (map ?f (str_split ''::'' y)))"
    by (simp add: convertTypeNameToPascalCase_def str_join_Nil)
  also have "\<dots> \<le> length (concat (str_split ''::'' y))"
    using f by (rule length_concat_map_le)
  also have "\<dots> + length ''::'' \<le> length y"
    using assms by (intro length_concat_str_split_includes) simp_all
  finally show ?thesis by simp
qed

text \<open>
  C9, as the claim states it, fails: a converted name can itself hold the separator
  \<open>::\<close>, put together from two single colons that stood on either side of a dot, and
  converting it again removes that separator.
\<close>

theorem convert_not_idempotent:
  "convertTypeNameToPascalCase (convertTypeNameToPascalCase ''a:.:b'')
     \<noteq> convertTypeNameToPascalCase ''a:.:b''"
  by code_simp

text \<open>
  C9, amended. \<open>api::article.article\<close> is converted to \<open>ApiArticleArticle\<close> and
  \<open>api::tag.tag\<close> to \<open>ApiTagTag\<close>; and converting a converted name again returns it
  unchanged when the converted name does not contain \<open>::\<close>, and only then.
\<close>

theorem convert_canonical:
  "convertTypeNameToPascalCase ''api::article.article'' = ''ApiArticleArticle'' \<and>
   convertTypeNameToPascalCase ''api::tag.tag'' = ''ApiTagTag'' \<and>
   (\<not> str_includes (convertTypeNameToPascalCase x) ''::'' \<longrightarrow>
      convertTypeNameToPascalCase (convertTypeNameToPascalCase x)
        = convertTypeNameToPascalCase x) \<and>
   (str_includes (convertTypeNameToPascalCase x) ''::'' \<longrightarrow>
      convertTypeNameToPascalCase (convertTypeNameToPascalCase x)
        \<noteq> convertTypeNameToPascalCase x)"
proof (intro conjI impI)
  show "convertTypeNameToPascalCase ''api::article.article'' = ''ApiArticleArticle''"
    by code_simp
  show "convertTypeNameToPascalCase ''api::tag.tag'' = ''ApiTagTag''"
    by code_simp
  show "convertTypeNameToPascalCase (convertTypeNameToPascalCase x)
      = convertTypeNameToPascalCase x"
    if "\<not> str_includes (convertTypeNameToPascalCase x) ''::''"
    using that by (rule convert_fixed)
  show "convertTypeNameToPascalCase (convertTypeNameToPascalCase x)
      \<noteq> convertTypeNameToPascalCase x"
    if "str_includes (convertTypeNameToPascalCase x) ''::''"
    using convert_shrinks [OF that] by auto
qed

theorem convert_canonical_witness:
  "\<not> str_includes (convertTypeNameToPascalCase ''plugin::users-permissions.user'') ''::'' \<and>
   convertTypeNameToPascalCase (convertTypeNameToPascalCase ''plugin::users-permissions.user'')
     = convertTypeNameToPascalCase ''plugin::users-permissions.user''"
proof -
  have h: "\<not> str_includes (convertTypeNameToPascalCase ''plugin::users-permissions.user'') ''::''"
    by code_simp
  with convert_canonical [of "''plugin::users-permissions.user''"] show ?thesis
    by blast
qed

section \<open>Type transformation\<close>







lemma relationMatch_at_prefix: "relationMatch_at s = Some r \<Longrightarrow> prefix (''Relation<'' @ [CHR 0x27]) s"
  by (auto simp: relationMatch_at_def split: if_splits)

lemma relationMatch_at_hit:
  assumes "k \<noteq> []" "CHR 0x27 \<notin> set k" "t \<noteq> []" "CHR 0x27 \<notin> set t" "\<forall>c \<in> set w. isSpace c"
  shows "relationMatch_at ((''Relation<'' @ [CHR 0x27]) @ k @ [CHR 0x27] @ '','' @ w @ [CHR 0x27] @ t
           @ [CHR 0x27] @ q) = Some (k, t)"
proof -
  let ?r1 = "[CHR 0x27] @ '','' @ w @ [CHR 0x27] @ t @ [CHR 0x27] @ q"
  let ?r3 = "[CHR 0x27] @ q"
  have 1: "takeWhile (\<lambda>c. c \<noteq> CHR 0x27) (k @ ?r1) = k"
    using assms(2) by (auto simp: takeWhile_tail)
  have 2: "dropWhile (\<lambda>c. c \<noteq> CHR 0x27) (k @ ?r1) = ?r1"
    using assms(2) by (simp add: dropWhile_append3) (auto simp: dropWhile_eq_Nil_conv)
  have 3: "dropWhile isSpace (w @ [CHR 0x27] @ t @ ?r3) = [CHR 0x27] @ t @ ?r3"
    using assms(5) by (simp add: dropWhile_append2 isSpace_def)
  have 4: "takeWhile (\<lambda>c. c \<noteq> CHR 0x27) (t @ ?r3) = t"
    using assms(4) by (auto simp: takeWhile_tail)
  have 5: "dropWhile (\<lambda>c. c \<noteq> CHR 0x27) (t @ ?r3) = ?r3"
    using assms(4) by (simp add: dropWhile_append3) (auto simp: dropWhile_eq_Nil_conv)
  show ?thesis
    using assms(1,3) 1 2 3 4 5 by (simp add: relationMatch_at_def Let_def)
qed

lemma relationMatch_found:
  assumes "\<not> str_includes p (''Relation<'' @ sq)"
    and "k \<noteq> []" "CHR 0x27 \<notin> set k" "t \<noteq> []" "CHR 0x27 \<notin> set t" "\<forall>c \<in> set w. isSpace c"
  shows "relationMatch (p @ ''Schema.Attribute.Relation<'' @ sq @ k @ sq @ '','' @ w @ sq @ t
           @ sq @ q) = Some (k, t)"
proof -
  let ?X = "''Relation<'' @ [CHR 0x27]"
  let ?rest = "k @ [CHR 0x27] @ '','' @ w @ [CHR 0x27] @ t @ [CHR 0x27] @ q"
  have hit: "relationMatch_at (?X @ ?rest) = Some (k, t)"
    by (rule relationMatch_at_hit [OF assms(2-6)])
  have "regex_search relationMatch_at (p @ ''Schema.Attribute.'' @ ?X @ ?rest) = Some (k, t)"
    by (rule regex_search_marker [where m = relationMatch_at and X = ?X])
       (use assms(1) hit relationMatch_at_prefix in \<open>simp_all add: sq_def\<close>)
  then show ?thesis by (simp add: relationMatch_def sq_def)
qed


lemma None_iff_pair: "(x = None) \<longleftrightarrow> (\<forall>a b. x \<noteq> Some (a, b))"
  by (cases x) auto

lemma relationMatch_at_iff: "relationMatch_at t = Some (k, tgt) \<longleftrightarrow> relation_pattern t k tgt"
proof
  assume "relation_pattern t k tgt"
  then obtain w q where "t = ''Relation<'' @ sq @ k @ sq @ '','' @ w @ sq @ tgt @ sq @ q"
    "\<forall>c \<in> set w. isSpace c" "k \<noteq> []" "CHR 0x27 \<notin> set k" "tgt \<noteq> []" "CHR 0x27 \<notin> set tgt"
    unfolding relation_pattern_def by blast
  then show "relationMatch_at t = Some (k, tgt)"
    using relationMatch_at_hit [of k tgt w q] by (simp add: sq_def)
next
  assume m: "relationMatch_at t = Some (k, tgt)"
  then have "prefix (''Relation<'' @ [CHR 0x27]) t" by (rule relationMatch_at_prefix)
  then obtain a where t: "t = ''Relation<'' @ sq @ a" by (auto simp: prefix_def sq_def)
  then have dr: "drop 10 t = a" by (simp add: sq_def)
  define d where "d = dropWhile (\<lambda>c. c \<noteq> CHR 0x27) a"
  from m have 1: "k = takeWhile (\<lambda>c. c \<noteq> CHR 0x27) a" "k \<noteq> []" "prefix [CHR 0x27, CHR '',''] d"
    unfolding d_def dr [symmetric]
    by (auto simp: relationMatch_at_def Let_def split: if_splits)
  have a: "a = k @ d" by (simp add: 1(1) d_def)
  from 1(3) obtain d' where d: "d = sq @ '','' @ d'" by (auto simp: prefix_def sq_def)
  then have dd: "drop 2 d = d'" by (simp add: sq_def)
  define w where "w = takeWhile isSpace d'"
  define e where "e = dropWhile isSpace d'"
  have d': "d' = w @ e" by (simp add: w_def e_def)
  have w: "\<forall>c \<in> set w. isSpace c" unfolding w_def by (auto dest: set_takeWhileD)
  from m 1 have 2: "prefix [CHR 0x27] e"
    unfolding e_def dd [symmetric] d_def dr [symmetric]
    by (auto simp: relationMatch_at_def Let_def split: if_splits)
  then obtain e' where e: "e = sq @ e'" "tl e = e'" by (auto simp: prefix_def sq_def)
  define f where "f = dropWhile (\<lambda>c. c \<noteq> CHR 0x27) e'"
  from m 1 2 have 3: "tgt = takeWhile (\<lambda>c. c \<noteq> CHR 0x27) e'" "tgt \<noteq> []" "f \<noteq> []"
    unfolding f_def e(2) [symmetric] e_def dd [symmetric] d_def dr [symmetric]
    by (auto simp: relationMatch_at_def Let_def split: if_splits)
  have e': "e' = tgt @ f" by (simp add: 3(1) f_def)
  have "hd f = CHR 0x27"
    using 3(3) hd_dropWhile [of "\<lambda>c. c \<noteq> CHR 0x27" e'] by (simp add: f_def)
  with 3(3) obtain q where f: "f = sq @ q" by (cases f) (auto simp: sq_def)
  have "t = ''Relation<'' @ sq @ k @ sq @ '','' @ w @ sq @ tgt @ sq @ q"
    by (simp add: t a d d' e(1) e' f)
  moreover have "CHR 0x27 \<notin> set k" "CHR 0x27 \<notin> set tgt"
    unfolding 1(1) 3(1) by (auto dest: set_takeWhileD)
  ultimately show "relation_pattern t k tgt"
    unfolding relation_pattern_def using w 1(2) 3(2) by blast
qed

lemma relationMatch_Some_iff:
  "relationMatch e = Some (k, tgt) \<longleftrightarrow>
     (\<exists>a b. e = a @ b \<and> relation_pattern b k tgt \<and>
        (\<forall>a2. suffix a2 a \<and> a2 \<noteq> [] \<longrightarrow> (\<forall>k' tgt'. \<not> relation_pattern (a2 @ b) k' tgt')))"
  unfolding relationMatch_def regex_search_Some_iff relationMatch_at_iff [symmetric]
  by (simp add: None_iff_pair)

lemma relationMatch_None_iff:
  "relationMatch e = None \<longleftrightarrow> (\<forall>t k tgt. suffix t e \<longrightarrow> \<not> relation_pattern t k tgt)"
  unfolding relationMatch_def regex_search_None_iff relationMatch_at_iff [symmetric]
  by (simp add: None_iff_pair)

text \<open>
  C6. For a type expression that contains the relation marker and no enumeration marker:
  at the leftmost place where the relation pattern matches, with kind \<open>k\<close> and target
  \<open>t\<close>, the result is the converted target name, followed by \<open>[]\<close> exactly when \<open>k\<close>
  is \<open>oneToMany\<close> or \<open>manyToMany\<close>; when the pattern matches nowhere, the result is
  \<open>any\<close>. In particular a single-quoted pair of a kind and a target that follows the
  first \<open>Relation<\<close> of the expression is such a match.
\<close>

theorem transform_relation:
  assumes "str_includes e ''Schema.Attribute.Relation''"
    and "\<not> str_includes e ''Schema.Attribute.Enumeration''"
  shows "(e = a @ b \<and> relation_pattern b k t \<and>
          (\<forall>a2 k' t'. suffix a2 a \<and> a2 \<noteq> [] \<longrightarrow> \<not> relation_pattern (a2 @ b) k' t')
          \<longrightarrow> transformAttributeType e =
             (if k = ''oneToMany'' \<or> k = ''manyToMany''
              then convertTypeNameToPascalCase t @ ''[]'' else convertTypeNameToPascalCase t)) \<and>
         ((\<forall>s k' t'. suffix s e \<longrightarrow> \<not> relation_pattern s k' t')
          \<longrightarrow> transformAttributeType e = ''any'') \<and>
         (e = p @ ''Schema.Attribute.Relation<'' @ sq @ k @ sq @ '','' @ w @ sq @ t @ sq @ q \<and>
          \<not> str_includes p (''Relation<'' @ sq) \<and> k \<noteq> [] \<and> CHR 0x27 \<notin> set k \<and>
          t \<noteq> [] \<and> CHR 0x27 \<notin> set t \<and> (\<forall>c \<in> set w. isSpace c)
          \<longrightarrow> transformAttributeType e =
             (if k = ''oneToMany'' \<or> k = ''manyToMany''
              then convertTypeNameToPascalCase t @ ''[]'' else convertTypeNameToPascalCase t))"
proof (intro conjI impI)
  have val: "transformAttributeType e =
      (if k = ''oneToMany'' \<or> k = ''manyToMany''
       then convertTypeNameToPascalCase t @ ''[]'' else convertTypeNameToPascalCase t)"
    if "relationMatch e = Some (k, t)"
    using assms that by (simp add: transformAttributeType_def Let_def)
  {
    assume "e = a @ b \<and> relation_pattern b k t \<and>
      (\<forall>a2 k' t'. suffix a2 a \<and> a2 \<noteq> [] \<longrightarrow> \<not> relation_pattern (a2 @ b) k' t')"
    then have "relationMatch e = Some (k, t)"
      unfolding relationMatch_Some_iff by (intro exI [of _ a] exI [of _ b]) simp
    then show "transformAttributeType e =
      (if k = ''oneToMany'' \<or> k = ''manyToMany''
       then convertTypeNameToPascalCase t @ ''[]'' else convertTypeNameToPascalCase t)"
      by (rule val)
  }
  {
    assume "\<forall>s k' t'. suffix s e \<longrightarrow> \<not> relation_pattern s k' t'"
    then have "relationMatch e = None" unfolding relationMatch_None_iff .
    with assms show "transformAttributeType e = ''any''"
      by (simp add: transformAttributeType_def)
  }
  {
    assume "e = p @ ''Schema.Attribute.Relation<'' @ sq @ k @ sq @ '','' @ w @ sq @ t @ sq @ q \<and>
      \<not> str_includes p (''Relation<'' @ sq) \<and> k \<noteq> [] \<and> CHR 0x27 \<notin> set k \<and>
      t \<noteq> [] \<and> CHR 0x27 \<notin> set t \<and> (\<forall>c \<in> set w. isSpace c)"
    then have "relationMatch e = Some (k, t)"
      using relationMatch_found [of p k t w q] by blast
    then show "transformAttributeType e =
      (if k = ''oneToMany'' \<or> k = ''manyToMany''
       then convertTypeNameToPascalCase t @ ''[]'' else convertTypeNameToPascalCase t)"
      by (rule val)
  }
qed

theorem transform_relation_witness:
  "transformAttributeType many_tags = ''ApiTagTag[]'' \<and>
   transformAttributeType one_author = ''ApiAuthorAuthor'' \<and>
   transformAttributeType quoted_author = ''any''"
proof -
  have m1: "str_includes many_tags ''Schema.Attribute.Relation''" by code_simp
  have m2: "\<not> str_includes many_tags ''Schema.Attribute.Enumeration''" by code_simp
  have m3: "many_tags = [] @ ''Schema.Attribute.Relation<'' @ sq @ ''manyToMany'' @ sq @ '','' @ '' '' @ sq
      @ ''api::tag.tag'' @ sq @ ''>'' \<and>
      \<not> str_includes [] (''Relation<'' @ sq) \<and> ''manyToMany'' \<noteq> [] \<and> CHR 0x27 \<notin> set ''manyToMany'' \<and>
      ''api::tag.tag'' \<noteq> [] \<and> CHR 0x27 \<notin> set ''api::tag.tag'' \<and>
      (\<forall>c \<in> set '' ''. isSpace c)"
    by (simp add: many_tags_def sq_def isSpace_def)
  have m4: "convertTypeNameToPascalCase ''api::tag.tag'' = ''ApiTagTag''" by code_simp
  from transform_relation [OF m1 m2, of _ _ "''manyToMany''" "''api::tag.tag''" "[]" "'' ''" "''>''"] m3
  have "transformAttributeType many_tags = convertTypeNameToPascalCase ''api::tag.tag'' @ ''[]''"
    by simp
  with m4 have 1: "transformAttributeType many_tags = ''ApiTagTag[]''" by simp
  have o1: "str_includes one_author ''Schema.Attribute.Relation''" by code_simp
  have o2: "\<not> str_includes one_author ''Schema.Attribute.Enumeration''" by code_simp
  have o3: "one_author = [] @ ''Schema.Attribute.Relation<'' @ sq @ ''manyToOne'' @ sq @ '','' @ '' '' @ sq
      @ ''api::author.author'' @ sq @ ''>'' \<and>
      \<not> str_includes [] (''Relation<'' @ sq) \<and> ''manyToOne'' \<noteq> [] \<and> CHR 0x27 \<notin> set ''manyToOne'' \<and>
      ''api::author.author'' \<noteq> [] \<and> CHR 0x27 \<notin> set ''api::author.author'' \<and>
      (\<forall>c \<in> set '' ''. isSpace c)"
    by (simp add: one_author_def sq_def isSpace_def)
  have o4: "convertTypeNameToPascalCase ''api::author.author'' = ''ApiAuthorAuthor''" by code_simp
  from transform_relation [OF o1 o2, of _ _ "''manyToOne''" "''api::author.author''" "[]" "'' ''" "''>''"] o3
  have "transformAttributeType one_author = convertTypeNameToPascalCase ''api::author.author''"
    by simp
  with o4 have 2: "transformAttributeType one_author = ''ApiAuthorAuthor''" by simp
  have q1: "str_includes quoted_author ''Schema.Attribute.Relation''" by code_simp
  have q2: "\<not> str_includes quoted_author ''Schema.Attribute.Enumeration''" by code_simp
  have "relationMatch quoted_author = None" by code_simp
  then have q3: "\<forall>s k' t'. suffix s quoted_author \<longrightarrow> \<not> relation_pattern s k' t'"
    unfolding relationMatch_None_iff .
  from transform_relation [OF q1 q2] q3
  have 3: "transformAttributeType quoted_author = ''any''" by blast
  from 1 2 3 show ?thesis by simp
qed

section \<open>Attribute parsing\<close>

lemma continuation_step:
  assumes "i < length ls" "\<not> str_endsWith a '';'' \<or> x > 0 \<or> y > 0 \<or> z > 0"
  shows "continuation ls i a x y z =
     continuation ls (i + 1) (a @ '' '' @ ls ! i)
       (x + net_count CHR ''<'' CHR ''>'' (ls ! i))
       (y + net_count CHR ''{'' CHR ''}'' (ls ! i))
       (z + net_count CHR ''['' CHR '']'' (ls ! i))"
  using assms by (subst continuation.simps) (simp add: Let_def)

lemma continuation_stop:
  assumes "\<not> (i < length ls \<and> (\<not> str_endsWith a '';'' \<or> x > 0 \<or> y > 0 \<or> z > 0))"
  shows "continuation ls i a x y z = (i, a)"
  using assms by (subst continuation.simps) auto

lemma net_count_append: "net_count c d (a @ b) = net_count c d a + net_count c d b"
  by (simp add: net_count_def match_count_def)

lemma net_count_joined_line:
  assumes "c \<noteq> CHR '' ''" "d \<noteq> CHR '' ''"
  shows "net_count c d (a @ '' '' @ l) = net_count c d a + net_count c d l"
  using assms by (simp add: net_count_def match_count_def)

lemma joined_Nil: "joined a [] = a"
  by (simp add: joined_def)

lemma joined_Cons: "joined a (l # ls) = joined (a @ '' '' @ l) ls"
  by (simp add: joined_def)

lemma continuation_first_stop:
  assumes "x = net_count CHR ''<'' CHR ''>'' a" "y = net_count CHR ''{'' CHR ''}'' a"
    "z = net_count CHR ''['' CHR '']'' a" "i \<le> length ls"
  shows "\<exists>k. i + k \<le> length ls \<and>
     continuation ls i a x y z = (i + k, joined a (take k (drop i ls))) \<and>
     (i + k < length ls \<longrightarrow> stop_here (joined a (take k (drop i ls)))) \<and>
     (\<forall>j<k. \<not> stop_here (joined a (take j (drop i ls))))"
  using assms
proof (induction ls i a x y z rule: continuation.induct)
  case (1 ls i a x y z)
  have inv: "stop_here a \<longleftrightarrow> \<not> (\<not> str_endsWith a '';'' \<or> x > 0 \<or> y > 0 \<or> z > 0)"
    using "1.prems"(1-3) by (auto simp: stop_here_def)
  show ?case
  proof (cases "i < length ls \<and> (\<not> str_endsWith a '';'' \<or> x > 0 \<or> y > 0 \<or> z > 0)")
    case True
    let ?a = "a @ '' '' @ ls ! i"
    let ?x = "x + net_count CHR ''<'' CHR ''>'' (ls ! i)"
    let ?y = "y + net_count CHR ''{'' CHR ''}'' (ls ! i)"
    let ?z = "z + net_count CHR ''['' CHR '']'' (ls ! i)"
    have d: "drop i ls = ls ! i # drop (i + 1) ls"
      using True by (simp add: Cons_nth_drop_Suc)
    have "\<exists>k. (i + 1) + k \<le> length ls \<and>
       continuation ls (i + 1) ?a ?x ?y ?z = ((i + 1) + k, joined ?a (take k (drop (i + 1) ls))) \<and>
       ((i + 1) + k < length ls \<longrightarrow> stop_here (joined ?a (take k (drop (i + 1) ls)))) \<and>
       (\<forall>j<k. \<not> stop_here (joined ?a (take j (drop (i + 1) ls))))"
      using True "1.prems"
      by (intro "1.IH" [OF True refl]) (simp_all add: net_count_def match_count_def)
    then obtain k where k: "(i + 1) + k \<le> length ls"
      "continuation ls (i + 1) ?a ?x ?y ?z = ((i + 1) + k, joined ?a (take k (drop (i + 1) ls)))"
      "(i + 1) + k < length ls \<longrightarrow> stop_here (joined ?a (take k (drop (i + 1) ls)))"
      "\<forall>j<k. \<not> stop_here (joined ?a (take j (drop (i + 1) ls)))" by blast
    have j: "joined a (take (Suc m) (drop i ls)) = joined ?a (take m (drop (i + 1) ls))" for m
      by (simp add: d joined_Cons)
    have "continuation ls i a x y z = (i + Suc k, joined a (take (Suc k) (drop i ls)))"
      using True k(2) by (simp add: continuation_step j)
    moreover have "i + Suc k \<le> length ls" using k(1) by simp
    moreover have "i + Suc k < length ls \<longrightarrow> stop_here (joined a (take (Suc k) (drop i ls)))"
      using k(3) by (simp add: j)
    moreover have "\<forall>m<Suc k. \<not> stop_here (joined a (take m (drop i ls)))"
    proof (intro allI impI)
      fix m assume m: "m < Suc k"
      show "\<not> stop_here (joined a (take m (drop i ls)))"
      proof (cases m)
        case 0
        with True inv show ?thesis by (simp add: joined_Nil)
      next
        case (Suc m')
        with m k(4) show ?thesis by (simp add: j)
      qed
    qed
    ultimately show ?thesis by blast
  next
    case False
    then have "continuation ls i a x y z = (i + 0, joined a (take 0 (drop i ls)))"
      by (simp add: continuation_stop joined_Nil)
    moreover have "i + 0 < length ls \<longrightarrow> stop_here (joined a (take 0 (drop i ls)))"
      using False inv by (simp add: joined_Nil)
    ultimately show ?thesis using "1.prems"(4) by (intro exI [of _ 0]) simp
  qed
qed

text \<open>
  C2, amended. From an attribute's first line on, the reconstruction appends the lines that
  follow, a single space before each, and stops at the first point where the accumulated
  text ends with \<open>;\<close> and none of the three net bracket counts (opens minus closes of
  \<open><\<close>, \<open>{\<close>, \<open>[\<close>, each kind counted on its own) is positive; when no such point comes
  before the end of the lines, it stops there.
\<close>

theorem reconstruct_first_stop:
  assumes "i \<le> length ls" and "reconstruct ls i a = (i', acc)"
  shows "i \<le> i' \<and> i' \<le> length ls \<and> acc = joined a (take (i' - i) (drop i ls)) \<and>
     (i' < length ls \<longrightarrow> stop_here acc) \<and>
     (\<forall>j < i' - i. \<not> stop_here (joined a (take j (drop i ls))))"
proof -
  from continuation_first_stop [OF refl refl refl assms(1), of a]
  obtain k where k: "i + k \<le> length ls"
    "reconstruct ls i a = (i + k, joined a (take k (drop i ls)))"
    "i + k < length ls \<longrightarrow> stop_here (joined a (take k (drop i ls)))"
    "\<forall>j<k. \<not> stop_here (joined a (take j (drop i ls)))"
    unfolding reconstruct_def by blast
  from k(2) assms(2) have "i' = i + k" "acc = joined a (take k (drop i ls))" by simp_all
  with k show ?thesis by simp
qed

text \<open>
  C2, as the claim states it, fails: the loop also stops where a net count is below zero.
  After the first line \<open>a: b>;\<close> the text \<open>b>;\<close> has one more \<open>>\<close> than \<open><\<close>, a
  second line follows, and the loop appends nothing: the second line is parsed as an
  attribute of its own.
\<close>

theorem reconstruct_stops_unbalanced:
  "lines_of (''a: b>;'' @ nl @ ''c: d;'') = [''a: b>;'', ''c: d;''] \<and>
   attrMatch ''a: b>;'' = Some (''a'', ''b>;'') \<and>
   reconstruct [''a: b>;'', ''c: d;''] 1 ''b>;'' = (1, ''b>;'') \<and>
   (1::nat) < length [''a: b>;'', ''c: d;''] \<and> \<not> stop_exact ''b>;'' \<and>
   map Attribute.name (parseAttributes (''a: b>;'' @ nl @ ''c: d;'')) = [''a'', ''c'']"
  by code_simp

theorem reconstruct_first_stop_witness:
  "reconstruct [''a: Schema.Attribute.JSON &'', ''Schema.Attribute.DefaultTo<{'', ''b: 1;'', ''}>;'',
      ''c: Schema.Attribute.Text;''] 1 ''Schema.Attribute.JSON &''
     = (4, ''Schema.Attribute.JSON & Schema.Attribute.DefaultTo<{ b: 1; }>;'') \<and>
   stop_here ''Schema.Attribute.JSON & Schema.Attribute.DefaultTo<{ b: 1; }>;'' \<and>
   \<not> stop_here ''Schema.Attribute.JSON & Schema.Attribute.DefaultTo<{ b: 1;''"
proof -
  let ?ls = "[''a: Schema.Attribute.JSON &'', ''Schema.Attribute.DefaultTo<{'', ''b: 1;'', ''}>;'',
      ''c: Schema.Attribute.Text;'']"
  let ?acc = "''Schema.Attribute.JSON & Schema.Attribute.DefaultTo<{ b: 1; }>;''"
  have 1: "(1::nat) \<le> length ?ls" by simp
  have 2: "reconstruct ?ls 1 ''Schema.Attribute.JSON &'' = (4, ?acc)" by code_simp
  have 3: "joined ''Schema.Attribute.JSON &'' (take 2 (drop 1 ?ls))
     = ''Schema.Attribute.JSON & Schema.Attribute.DefaultTo<{ b: 1;''" by code_simp
  note r = reconstruct_first_stop [OF 1 2]
  from r have "4 < length ?ls \<longrightarrow> stop_here ?acc" by blast
  then have a: "stop_here ?acc" by simp
  from r have "\<forall>j < 4 - 1. \<not> stop_here (joined ''Schema.Attribute.JSON &'' (take j (drop 1 ?ls)))"
    by blast
  then have "\<not> stop_here (joined ''Schema.Attribute.JSON &'' (take 2 (drop 1 ?ls)))"
    by (rule allE [of _ 2]) simp
  with 3 have b: "\<not> stop_here ''Schema.Attribute.JSON & Schema.Attribute.DefaultTo<{ b: 1;''"
    by metis
  from 2 a b show ?thesis by blast
qed

lemma parse_loop_stop: "\<not> i < length ls \<Longrightarrow> parse_loop ls i acc = acc"
  by (subst parse_loop.simps) simp

lemma parse_loop_step:
  assumes "i < length ls"
  shows "parse_loop ls i acc = parse_loop ls (next_index ls i)
     (acc @ map attr_of (filter (\<lambda>d. \<not> is_private d)
        (case decl_at ls i of None \<Rightarrow> [] | Some d \<Rightarrow> [d])))"
proof (cases "attrMatch (ls ! i)")
  case None
  with assms show ?thesis
    by (subst parse_loop.simps) (simp add: next_index_def decl_at_def)
next
  case (Some m)
  obtain n t0 where m: "m = (n, t0)" by (cases m)
  show ?thesis
  proof (cases "t0 = []")
    case True
    with assms Some m show ?thesis
      by (subst parse_loop.simps) (simp add: next_index_def decl_at_def)
  next
    case False
    obtain i' t1 where r: "reconstruct ls (i + 1) t0 = (i', t1)"
      by (cases "reconstruct ls (i + 1) t0")
    with assms Some m False show ?thesis
      by (subst parse_loop.simps)
         (simp add: next_index_def decl_at_def is_private_def attr_of_def Let_def)
  qed
qed

lemma parse_loop_declarations:
  "parse_loop ls i acc = acc @ map attr_of (filter (\<lambda>d. \<not> is_private d) (declarations ls i))"
proof (induction ls i arbitrary: acc rule: declarations.induct)
  case (1 ls i)
  show ?case
  proof (cases "i < length ls")
    case True
    have "parse_loop ls i acc = parse_loop ls (next_index ls i)
       (acc @ map attr_of (filter (\<lambda>d. \<not> is_private d)
          (case decl_at ls i of None \<Rightarrow> [] | Some d \<Rightarrow> [d])))"
      using True by (rule parse_loop_step)
    also have "\<dots> = (acc @ map attr_of (filter (\<lambda>d. \<not> is_private d)
          (case decl_at ls i of None \<Rightarrow> [] | Some d \<Rightarrow> [d])))
        @ map attr_of (filter (\<lambda>d. \<not> is_private d) (declarations ls (next_index ls i)))"
      by (rule "1.IH" [OF True])
    also have "\<dots> = acc @ map attr_of (filter (\<lambda>d. \<not> is_private d) (declarations ls i))"
      using True by (subst (2) declarations.simps) simp
    finally show ?thesis .
  next
    case False
    then show ?thesis
      by (subst declarations.simps) (simp add: parse_loop_stop)
  qed
qed

text \<open>
  C7. \<open>declarations\<close> lists the attribute declarations of a block in the order the parser
  meets them, each with its reconstructed type expression. The records \<open>parseAttributes\<close>
  returns are those of the declarations whose expression does not contain the private
  marker, in the same order: a declaration whose expression contains it gives no record,
  whatever else the expression contains.
\<close>

theorem parseAttributes_drops_private:
  "parseAttributes s =
     map attr_of (filter (\<lambda>d. \<not> is_private d) (declarations (lines_of s) 0))"
  by (simp add: parseAttributes_def lines_of_def parse_loop_declarations)

theorem parseAttributes_drops_private_witness:
  "map fst (declarations (lines_of private_block) 0) = [''title'', ''createdBy'', ''secret'', ''views''] \<and>
   map is_private (declarations (lines_of private_block) 0) = [False, True, True, False] \<and>
   map Attribute.name (parseAttributes private_block) = [''title'', ''views'']"
proof -
  have d: "declarations (lines_of private_block) 0 =
     [(''title'', ''Schema.Attribute.String & Schema.Attribute.Required''),
      (''createdBy'', ''Schema.Attribute.Relation<'oneToOne', 'admin::user'> & Schema.Attribute.Private''),
      (''secret'', ''Schema.Attribute.Password & Schema.Attribute.Required & Schema.Attribute.Private''),
      (''views'', ''Schema.Attribute.Integer'')]"
    by code_simp
  have p: "map is_private (declarations (lines_of private_block) 0) = [False, True, True, False]"
    unfolding d by code_simp
  have "map Attribute.name (parseAttributes private_block) = [''title'', ''views'']"
    unfolding parseAttributes_drops_private [of private_block] d
    by (simp add: is_private_def attr_of_def)
  with d p show ?thesis by simp
qed

lemma continuation_fuel_enough:
  "length ls - i < n \<Longrightarrow> continuation_fuel n ls i a x y z = Some (continuation ls i a x y z)"
proof (induction n arbitrary: i a x y z)
  case 0
  then show ?case by simp
next
  case (Suc n)
  show ?case
  proof (cases "i < length ls \<and> (\<not> str_endsWith a '';'' \<or> x > 0 \<or> y > 0 \<or> z > 0)")
    case True
    then have "length ls - (i + 1) < n" using Suc.prems by linarith
    from Suc.IH [OF this] True show ?thesis
      by (simp add: Let_def continuation_step)
  next
    case False
    then show ?thesis by (auto simp: continuation_stop)
  qed
qed

lemma reconstruct_bounds:
  assumes "i \<le> length ls"
  shows "i \<le> fst (reconstruct ls i a) \<and> fst (reconstruct ls i a) \<le> length ls"
proof -
  from continuation_first_stop [OF refl refl refl assms, of a]
  obtain k where "i + k \<le> length ls" "fst (reconstruct ls i a) = i + k"
    unfolding reconstruct_def by force
  then show ?thesis by simp
qed

lemma next_index_bounds:
  assumes "i < length ls"
  shows "i < next_index ls i \<and> next_index ls i \<le> length ls"
proof -
  have "i + 1 \<le> fst (reconstruct ls (i + 1) a) \<and> fst (reconstruct ls (i + 1) a) \<le> length ls" for a
    using assms by (intro reconstruct_bounds) simp
  with assms show ?thesis
    by (auto simp: next_index_def less_eq_Suc_le split: option.splits)
qed

lemma parse_fuel_enough:
  "length ls - i < n \<Longrightarrow> parse_fuel n ls i acc = Some (parse_loop ls i acc)"
proof (induction n arbitrary: i acc)
  case 0
  then show ?case by simp
next
  case (Suc n)
  show ?case
  proof (cases "i < length ls")
    case False
    then show ?thesis by (simp add: parse_loop_stop)
  next
    case True
    have step: "parse_fuel n ls j acc' = Some (parse_loop ls j acc')" if "i < j" for j acc'
      using that Suc.prems True by (intro Suc.IH) linarith
    show ?thesis
    proof (cases "attrMatch (ls ! i)")
      case None
      with True step [of "i + 1" acc] show ?thesis
        by (subst parse_loop.simps) simp
    next
      case (Some m)
      obtain nm t0 where m: "m = (nm, t0)" by (cases m)
      show ?thesis
      proof (cases "t0 = []")
        case e: True
        with True Some m step [of "i + 1" acc] show ?thesis
          by (subst parse_loop.simps) simp
      next
        case ne: False
        obtain i' t1 where r: "reconstruct ls (i + 1) t0 = (i', t1)"
          by (cases "reconstruct ls (i + 1) t0")
        have f: "continuation_fuel (Suc (length ls)) ls (i + 1) t0
            (net_count CHR ''<'' CHR ''>'' t0) (net_count CHR ''{'' CHR ''}'' t0)
            (net_count CHR ''['' CHR '']'' t0) = Some (i', t1)"
          using r by (subst continuation_fuel_enough) (simp_all add: reconstruct_def)
        have "i < i'"
          using reconstruct_bounds [of "i + 1" ls t0] True r by simp
        note s = step [OF this]
        show ?thesis
          using True Some m ne r f s
          by (subst parse_loop.simps) (simp add: Let_def del: continuation_fuel.simps)
      qed
    qed
  qed
qed

text \<open>
  C10. \<open>parseAttributes\<close> returns on every input: given one outer iteration more than
  there are lines, and as many inner iterations for each attribute, the loops end within
  their budget, with the result of \<open>parseAttributes\<close>. Each outer iteration moves the
  index forward by at least one line and never past the end of the lines.
\<close>

theorem parseAttributes_total:
  "parseAttributes_fuel s = Some (parseAttributes s) \<and>
   (i < length ls \<longrightarrow>
      i < next_index ls i \<and> next_index ls i \<le> length ls \<and>
      (\<exists>acc'. parse_loop ls i acc = parse_loop ls (next_index ls i) acc'))"
proof (intro conjI impI)
  have "parse_fuel (Suc (length (lines_of s))) (lines_of s) 0 []
      = Some (parse_loop (lines_of s) 0 [])"
    by (rule parse_fuel_enough) simp
  then show "parseAttributes_fuel s = Some (parseAttributes s)"
    by (simp only: parseAttributes_fuel_def parseAttributes_def lines_of_def)
  assume i: "i < length ls"
  then show "i < next_index ls i" "next_index ls i \<le> length ls"
    using next_index_bounds by blast+
  from i show "\<exists>acc'. parse_loop ls i acc = parse_loop ls (next_index ls i) acc'"
    using parse_loop_step by blast
qed

theorem parseAttributes_total_witness:
  "(0::nat) < length (lines_of private_block) \<and>
   next_index (lines_of private_block) 0 = 1 \<and>
   next_index (lines_of private_block) 1 = 3 \<and>
   parseAttributes_fuel private_block = Some (parseAttributes private_block)"
proof -
  have 1: "(0::nat) < length (lines_of private_block)" by code_simp
  have 2: "next_index (lines_of private_block) 0 = 1" by code_simp
  have 3: "next_index (lines_of private_block) 1 = 3" by code_simp
  from parseAttributes_total [of private_block 0 "lines_of private_block" "[]"] 1
  have "parseAttributes_fuel private_block = Some (parseAttributes private_block)" by blast
  with 1 2 3 show ?thesis by simp
qed

section \<open>Interface extraction\<close>












text \<open>
  C3. The claim does not hold of the code. In the source text below the type expression of
  \<open>title\<close> spans seven lines and nests two braces. The extractor ends the attributes
  sub-block at the line \<open>};\<close> that closes the inner brace, so the parser receives a
  truncated expression for \<open>title\<close> and never sees \<open>slug\<close>, which is missing from the
  output.
\<close>

theorem nested_brace_ends_block:
  "map_option (\<lambda>(n, c, r). attributesMatch c) (interfaceRegex_exec localized_source)
     = Some (Some (nl @ ''    title: Schema.Attribute.String &'' @ nl @
         ''      Schema.Attribute.Required &'' @ nl @
         ''      Schema.Attribute.SetPluginOptions<{'' @ nl @
         ''        i18n: {'' @ nl @
         ''          localized: true;'')) \<and>
   generateTypes localized_source
     = ''export interface ApiArticleArticle {'' @ nl @ ''  title: string;'' @ nl @ ''}''"
  by code_simp

end
